theory Spec2Isabelle
  imports Main "HOL-Library.AList"
begin

section \<open>Event payloads: Go maps on an explicit heap\<close>

text \<open>
  A Go map is a reference: \<^verbatim>\<open>type Data map[string]interface{}\<close> is a pointer to a
  table, and two variables may name the same table. The payloads therefore live in a
  store: an address is an index into a list of tables, \<^verbatim>\<open>make\<close> appends a new empty
  table, and a table is an association list from keys to dynamic values. The order of
  the association list stands for the order in which \<^verbatim>\<open>range\<close> visits the keys.
  A dynamic value is what the type switch of \<^verbatim>\<open>copyData\<close> distinguishes: a value of
  type \<^verbatim>\<open>Data\<close>, a value of type \<^verbatim>\<open>map[string]interface{}\<close> (either may be the nil
  map), and everything else, which the \<^verbatim>\<open>default\<close> branch stores in the copy as it is;
  of these the model keeps nil, booleans, integers and strings.
\<close>

type_synonym addr = nat

type_synonym Data = "addr option"

datatype val =
    VNil
  | VBool bool
  | VInt int
  | VStr string
  | VData Data
  | VMap Data

type_synonym gomap = "(string \<times> val) list"

type_synonym heap = "gomap list"

fun entries :: "heap \<Rightarrow> Data \<Rightarrow> gomap" where
  "entries h None = []"
| "entries h (Some a) = (if a < length h then h ! a else [])"

definition store :: "heap \<Rightarrow> addr \<Rightarrow> string \<Rightarrow> val \<Rightarrow> heap" where
  "store h a k v = (if a < length h then h[a := AList.update k v (h ! a)] else h)"

definition NewData :: "heap \<Rightarrow> heap \<times> addr" where
  "NewData h = (h @ [[]], length h)"

text \<open>
  \<^verbatim>\<open>copyData\<close> calls itself, and nothing in it bounds the depth of the calls, so the
  model carries fuel: one unit for each nested call, and \<open>None\<close> when the fuel is
  used up. The loop body is \<open>copyLoop\<close>; \<open>rec\<close> is the recursive call. In the
  \<^verbatim>\<open>case Data\<close> branch the source passes \<^verbatim>\<open>d\<close>, the map being copied, and not
  \<^verbatim>\<open>t\<close>, the nested value; in both map branches the value stored has type
  \<^verbatim>\<open>Data\<close>, the result type of \<^verbatim>\<open>copyData\<close>.
\<close>

fun copyLoop ::
  "(heap \<Rightarrow> Data \<Rightarrow> (heap \<times> addr) option) \<Rightarrow> Data \<Rightarrow> addr \<Rightarrow> gomap \<Rightarrow> heap
     \<Rightarrow> (heap \<times> addr) option" where
  "copyLoop rec d nd [] h = Some (h, nd)"
| "copyLoop rec d nd ((k, v) # es) h =
     (case v of
        VData t \<Rightarrow>
          (case rec h d of
             None \<Rightarrow> None
           | Some (h', c) \<Rightarrow> copyLoop rec d nd es (store h' nd k (VData (Some c))))
      | VMap t \<Rightarrow>
          (case rec h t of
             None \<Rightarrow> None
           | Some (h', c) \<Rightarrow> copyLoop rec d nd es (store h' nd k (VData (Some c))))
      | _ \<Rightarrow> copyLoop rec d nd es (store h nd k v))"

primrec copyData :: "nat \<Rightarrow> heap \<Rightarrow> Data \<Rightarrow> (heap \<times> addr) option" where
  "copyData 0 = (\<lambda>h d. None)"
| "copyData (Suc n) = (\<lambda>h d. copyLoop (copyData n) d (length h) (entries h d) (h @ [[]]))"

text \<open>
  Two notions used in the statements below. A table is \<open>flat\<close> when none of its
  values is a map of either representation; \<open>copyVal\<close> is the value one pass of the
  loop body of \<^verbatim>\<open>copyData\<close> stores under the key, with the heap after the nested call.
\<close>

fun is_map :: "val \<Rightarrow> bool" where
  "is_map (VData t) = True"
| "is_map (VMap t) = True"
| "is_map v = False"

definition flat :: "gomap \<Rightarrow> bool" where
  "flat m = list_all (\<lambda>(k, v). \<not> is_map v) m"

definition copyVal ::
  "(heap \<Rightarrow> Data \<Rightarrow> (heap \<times> addr) option) \<Rightarrow> Data \<Rightarrow> heap \<Rightarrow> val \<Rightarrow> (heap \<times> val) option" where
  "copyVal rec d h v =
     (case v of
        VData t \<Rightarrow> map_option (\<lambda>(h', c). (h', VData (Some c))) (rec h d)
      | VMap t \<Rightarrow> map_option (\<lambda>(h', c). (h', VData (Some c))) (rec h t)
      | _ \<Rightarrow> Some (h, v))"

definition frame :: "(heap \<Rightarrow> Data \<Rightarrow> (heap \<times> addr) option) \<Rightarrow> bool" where
  "frame rec =
     (\<forall>h t h' c. rec h t = Some (h', c) \<longrightarrow> length h \<le> length h' \<and> take (length h) h' = h)"

text \<open>
  A table is \<open>plain\<close> to depth \<open>k\<close> when it holds no value of type \<^verbatim>\<open>Data\<close> and
  every plain map in it is nil or a table of the heap that is plain to depth \<open>k - 1\<close>:
  a finite tree of plain maps of height at most \<open>k\<close>.
\<close>

primrec plain :: "nat \<Rightarrow> heap \<Rightarrow> gomap \<Rightarrow> bool" where
  "plain 0 = (\<lambda>h m. flat m)"
| "plain (Suc k) =
     (\<lambda>h m. list_all
        (\<lambda>(key, v).
           case v of
             VData t \<Rightarrow> False
           | VMap None \<Rightarrow> True
           | VMap (Some a) \<Rightarrow> a < length h \<and> plain k h (h ! a)
           | _ \<Rightarrow> True) m)"

section \<open>Handlers, errors and what an observer sees\<close>

text \<open>
  \<^verbatim>\<open>ErrHalt\<close> is one error value, compared by identity (\<^verbatim>\<open>err == ErrHalt\<close>); every
  other error is \<open>Err\<close> with its message. A handler is the \<^verbatim>\<open>Handler\<close> interface: its
  \<^verbatim>\<open>Call\<close> reads the payload and returns an error or nil. The model gives every
  handler an identity \<open>hid\<close>, so that its invocations can be told apart in the trace;
  handlers here do not write to the heap and do not call back into the emitter.

  The trace is what an observer of the program sees, in order: a handler invoked with a
  payload, a line handed to the logger (level, structured fields, message), a value sent
  on a channel.
\<close>

datatype err = ErrHalt | Err string

fun Error :: "err \<Rightarrow> string" where
  "Error ErrHalt = ''intentional halt of event execution''"
| "Error (Err s) = s"

record Handler =
  hid :: nat
  Call :: "heap \<Rightarrow> Data \<Rightarrow> err option"

datatype level = LDebug | LInfo | LWarn | LError

datatype field = FEvent string | FData Data | FError string

datatype event =
    Called nat Data
  | Logged level "field list" string
  | Sent nat

fun calls :: "event list \<Rightarrow> (nat \<times> Data) list" where
  "calls [] = []"
| "calls (Called i d # evs) = (i, d) # calls evs"
| "calls (ev # evs) = calls evs"


section \<open>The handler set of one event\<close>

text \<open>
  Modelled from the spec: the type \<^verbatim>\<open>handlers\<close> with \<^verbatim>\<open>newHandlers\<close>, \<^verbatim>\<open>add\<close>,
  \<^verbatim>\<open>addOnce\<close>, \<^verbatim>\<open>clear\<close> and \<^verbatim>\<open>call\<close>, which \<^verbatim>\<open>emitter.go\<close> uses and whose file is
  not among the sources. The spec (4.1, HandlerSet) gives it as an ordered sequence of
  entries, each a handler with a consume-after-first-call flag: \<^verbatim>\<open>add\<close> appends a
  persistent entry at the end, \<^verbatim>\<open>addOnce\<close> a once-flagged one, \<^verbatim>\<open>clear\<close> empties the
  sequence, and \<^verbatim>\<open>call\<close> invokes each entry's handler in insertion order with the same
  payload, stops at the first non-nil error and returns it, and removes every
  once-flagged entry it has called, also the one that returned the error.
\<close>

record HandlerEntry =
  handler :: Handler
  once :: bool

type_synonym HandlerSet = "HandlerEntry list"

definition newHandlers :: HandlerSet where
  "newHandlers = []"

definition add :: "HandlerSet \<Rightarrow> Handler \<Rightarrow> HandlerSet" where
  "add hs h = hs @ [\<lparr>handler = h, once = False\<rparr>]"

definition addOnce :: "HandlerSet \<Rightarrow> Handler \<Rightarrow> HandlerSet" where
  "addOnce hs h = hs @ [\<lparr>handler = h, once = True\<rparr>]"

definition clear :: "HandlerSet \<Rightarrow> HandlerSet" where
  "clear hs = []"

fun call :: "HandlerSet \<Rightarrow> heap \<Rightarrow> Data \<Rightarrow> HandlerSet \<times> event list \<times> err option" where
  "call [] hp d = ([], [], None)"
| "call (en # ens) hp d =
     (let keep = (if once en then [] else [en]);
          ev = Called (hid (handler en)) d
      in case Call (handler en) hp d of
           Some er \<Rightarrow> (keep @ ens, [ev], Some er)
         | None \<Rightarrow>
             (case call ens hp d of
                (ens', tr, r) \<Rightarrow> (keep @ ens', ev # tr, r)))"

section \<open>The emitter\<close>

text \<open>
  The record holds the fields of \<^verbatim>\<open>Emitter\<close> (\<open>log\<close> says whether a logger is
  present; the mutex is left out, the model runs one operation at a time) and, beside
  them, the rest of the program state the operations touch: the heap of payloads, the
  channels made so far (for each the number of values sent on it) and the trace.
\<close>

record Emitter =
  handlers :: "string \<rightharpoonup> HandlerSet"
  log :: bool
  oneTimeEmissions :: "string \<rightharpoonup> Data"
  heap :: heap
  chans :: "nat list"
  trace :: "event list"

definition NewEmitter :: "bool \<Rightarrow> Emitter" where
  "NewEmitter l =
     \<lparr>handlers = Map.empty, log = l, oneTimeEmissions = Map.empty,
      heap = [], chans = [], trace = []\<rparr>"

text \<open>The guarded logger call \<^verbatim>\<open>if e.log != nil { e.log.WithFields(fs).Level(msg) }\<close>.\<close>

definition logf :: "Emitter \<Rightarrow> level \<Rightarrow> field list \<Rightarrow> string \<Rightarrow> Emitter" where
  "logf e lv fs msg = (if log e then e\<lparr>trace := trace e @ [Logged lv fs msg]\<rparr> else e)"

definition HasPrefix :: "string \<Rightarrow> string \<Rightarrow> bool" where
  "HasPrefix s p = (take (length p) s = p)"

definition quoted :: "string \<Rightarrow> string" where
  "quoted s = CHR 0x27 # s @ [CHR 0x27]"

definition metaWarning :: string where
  "metaWarning =
     ''Cannot emit meta events '' @ quoted ''before'' @ '' or '' @ quoted ''after'' @ '' directly.''"

definition On :: "nat \<Rightarrow> Emitter \<Rightarrow> string \<Rightarrow> Handler \<Rightarrow> Emitter option" where
  "On n e evt h =
     (let hs = (case handlers e evt of Some hs \<Rightarrow> hs | None \<Rightarrow> newHandlers);
          e1 = e\<lparr>handlers := (handlers e)(evt \<mapsto> add hs h)\<rparr>
      in case oneTimeEmissions e1 evt of
           Some data \<Rightarrow>
             (case copyData n (heap e1) data of
                None \<Rightarrow> None
              | Some (hp, c) \<Rightarrow>
                  Some (e1\<lparr>heap := hp, trace := trace e1 @ [Called (hid h) (Some c)]\<rparr>))
         | None \<Rightarrow> Some e1)"

definition Once :: "nat \<Rightarrow> Emitter \<Rightarrow> string \<Rightarrow> Handler \<Rightarrow> Emitter option" where
  "Once n e evt h =
     (case oneTimeEmissions e evt of
        Some data \<Rightarrow>
          (case copyData n (heap e) data of
             None \<Rightarrow> None
           | Some (hp, c) \<Rightarrow>
               Some (e\<lparr>heap := hp, trace := trace e @ [Called (hid h) (Some c)]\<rparr>))
      | None \<Rightarrow>
          (let hs = (case handlers e evt of Some hs \<Rightarrow> hs | None \<Rightarrow> newHandlers)
           in Some (e\<lparr>handlers := (handlers e)(evt \<mapsto> addOnce hs h)\<rparr>)))"

definition off :: "Emitter \<Rightarrow> string \<Rightarrow> Emitter" where
  "off e evt =
     (case handlers e evt of
        Some hs \<Rightarrow> e\<lparr>handlers := (handlers e)(evt \<mapsto> clear hs)\<rparr>
      | None \<Rightarrow> e)"

definition Off :: "Emitter \<Rightarrow> string \<Rightarrow> Emitter" where
  "Off e evt = off (off (off e (''before:'' @ evt)) evt) (''after:'' @ evt)"

text \<open>
  \<^verbatim>\<open>emit\<close> looks the handler set of one name up and calls it; a name with no set does
  nothing and returns nil.
\<close>

definition emit :: "Emitter \<Rightarrow> string \<Rightarrow> Data \<Rightarrow> Emitter \<times> err option" where
  "emit e evt d =
     (case handlers e evt of
        Some hs \<Rightarrow>
          (case call hs (heap e) d of
             (hs', tr, r) \<Rightarrow>
               (e\<lparr>handlers := (handlers e)(evt \<mapsto> hs'), trace := trace e @ tr\<rparr>, r))
      | None \<Rightarrow> (e, None))"

text \<open>
  \<^verbatim>\<open>Emit\<close> has two parts. The part that runs in the caller warns about a meta event
  name, replaces a nil payload by a new empty one or copies the payload, makes the
  channel \<^verbatim>\<open>done\<close> and starts the goroutine; it returns the channel. Its model returns
  the state and the goroutine it started, a \<open>task\<close> holding the variables the closure
  captured. \<open>Emit_go\<close> is the body of the goroutine, run to its end. The channel has
  room for one value and \<open>send\<close> counts the values sent on it.
\<close>

record task =
  tevt :: string
  tdata :: Data
  tdone :: nat

definition send :: "Emitter \<Rightarrow> nat \<Rightarrow> Emitter" where
  "send e c =
     (if c < length (chans e)
      then e\<lparr>chans := (chans e)[c := chans e ! c + 1], trace := trace e @ [Sent c]\<rparr>
      else e)"

definition Emit :: "nat \<Rightarrow> Emitter \<Rightarrow> string \<Rightarrow> Data \<Rightarrow> (Emitter \<times> task) option" where
  "Emit n e evt d =
     (let e1 = (if HasPrefix evt ''before:'' \<or> HasPrefix evt ''after:''
                then logf e LWarn [FEvent evt, FData d] metaWarning
                else e)
      in case (if d = None then Some (NewData (heap e1)) else copyData n (heap e1) d) of
           None \<Rightarrow> None
         | Some (hp, a) \<Rightarrow>
             Some (e1\<lparr>heap := hp, chans := chans e1 @ [0]\<rparr>,
                   \<lparr>tevt = evt, tdata = Some a, tdone = length (chans e1)\<rparr>))"

definition Emit_go :: "Emitter \<Rightarrow> task \<Rightarrow> Emitter" where
  "Emit_go e t =
     (let evt = tevt t; d = tdata t
      in case emit e (''before:'' @ evt) d of
           (e1, err1) \<Rightarrow>
             (case (if err1 = None then emit e1 evt d else (e1, err1)) of
                (e2, err2) \<Rightarrow>
                  (case (if err2 = None then emit e2 (''after:'' @ evt) d else (e2, err2)) of
                     (e3, err3) \<Rightarrow>
                       send
                         (case err3 of
                            None \<Rightarrow> e3
                          | Some er \<Rightarrow>
                              (if er = ErrHalt
                               then logf e3 LDebug [FEvent evt, FData d] ''Event emission halted.''
                               else logf e3 LError [FError (Error er), FEvent evt, FData d]
                                      ''Failed during execution of event handlers.''))
                         (tdone t))))"

definition EmitOnce :: "nat \<Rightarrow> Emitter \<Rightarrow> string \<Rightarrow> Data \<Rightarrow> (Emitter \<times> task) option" where
  "EmitOnce n e evt d =
     (case copyData n (heap e) d of
        None \<Rightarrow> None
      | Some (hp, c) \<Rightarrow>
          Emit n
            (e\<lparr>heap := hp,
               oneTimeEmissions :=
                 (oneTimeEmissions e)(''before:'' @ evt \<mapsto> Some c, evt \<mapsto> Some c,
                                      ''after:'' @ evt \<mapsto> Some c)\<rparr>)
            evt (Some c))"

text \<open>
  The handler set registered under a name (none is the empty one), and the three parts
  of what \<^verbatim>\<open>call\<close> on it gives for a payload.
\<close>

definition hset :: "Emitter \<Rightarrow> string \<Rightarrow> HandlerSet" where
  "hset e k = (case handlers e k of None \<Rightarrow> [] | Some hs \<Rightarrow> hs)"

definition invoked :: "Emitter \<Rightarrow> string \<Rightarrow> Data \<Rightarrow> event list" where
  "invoked e k d = fst (snd (call (hset e k) (heap e) d))"

definition outcome :: "Emitter \<Rightarrow> string \<Rightarrow> Data \<Rightarrow> err option" where
  "outcome e k d = snd (snd (call (hset e k) (heap e) d))"

definition report :: "Emitter \<Rightarrow> task \<Rightarrow> err option \<Rightarrow> event list" where
  "report e t r =
     (case r of
        None \<Rightarrow> []
      | Some er \<Rightarrow>
          (if \<not> log e then []
           else if er = ErrHalt
             then [Logged LDebug [FEvent (tevt t), FData (tdata t)] ''Event emission halted.'']
             else [Logged LError [FError (Error er), FEvent (tevt t), FData (tdata t)]
                     ''Failed during execution of event handlers.'']))"

text \<open>
  Two ways of saying "then, later": the handler invocations of a run of further calls on
  one handler set, each with the heap and payload of its emission, and the registration
  of a list of handlers on one event with \<^verbatim>\<open>On\<close>, in the order of the list.
\<close>

fun calls_seq :: "HandlerSet \<Rightarrow> (heap \<times> Data) list \<Rightarrow> event list" where
  "calls_seq hs [] = []"
| "calls_seq hs ((hp, d) # ps) =
     (case call hs hp d of (hs', tr, r) \<Rightarrow> tr @ calls_seq hs' ps)"

fun On_all :: "nat \<Rightarrow> Emitter \<Rightarrow> string \<Rightarrow> Handler list \<Rightarrow> Emitter option" where
  "On_all n e evt [] = Some e"
| "On_all n e evt (h # hs) =
     (case On n e evt h of None \<Rightarrow> None | Some e' \<Rightarrow> On_all n e' evt hs)"



section \<open>Example handlers and states\<close>

text \<open>
  Concrete inputs at which the theorems below are instantiated: a handler that returns
  nil, one that returns \<^verbatim>\<open>ErrHalt\<close>, one that returns another error, and an emitter with
  handlers on all three names of the event \<^verbatim>\<open>x\<close>, the second of which halts.
\<close>

definition quiet :: "nat \<Rightarrow> Handler" where
  "quiet i = \<lparr>hid = i, Call = (\<lambda>hp d. None)\<rparr>"

definition halting :: "nat \<Rightarrow> Handler" where
  "halting i = \<lparr>hid = i, Call = (\<lambda>hp d. Some ErrHalt)\<rparr>"

definition failing :: "nat \<Rightarrow> string \<Rightarrow> Handler" where
  "failing i s = \<lparr>hid = i, Call = (\<lambda>hp d. Some (Err s))\<rparr>"

definition ex_halt :: Emitter where
  "ex_halt = (NewEmitter True)
     \<lparr>handlers :=
        [''before:x'' \<mapsto> [\<lparr>handler = quiet 1, once = False\<rparr>],
         ''x'' \<mapsto> [\<lparr>handler = halting 2, once = False\<rparr>, \<lparr>handler = quiet 3, once = False\<rparr>],
         ''after:x'' \<mapsto> [\<lparr>handler = quiet 4, once = False\<rparr>]]\<rparr>"



definition ex_set :: HandlerSet where
  "ex_set =
     [\<lparr>handler = quiet 1, once = True\<rparr>, \<lparr>handler = quiet 2, once = False\<rparr>,
      \<lparr>handler = failing 3 ''boom'', once = True\<rparr>, \<lparr>handler = quiet 4, once = True\<rparr>]"

definition ex_reg :: Emitter where
  "ex_reg = (NewEmitter False)
     \<lparr>handlers :=
        [''x'' \<mapsto> [\<lparr>handler = quiet 1, once = False\<rparr>, \<lparr>handler = quiet 2, once = False\<rparr>,
                    \<lparr>handler = quiet 3, once = False\<rparr>]]\<rparr>"

text \<open>
  A heap with two payloads, \<^verbatim>\<open>{"v": 1}\<close> at address 0 and \<^verbatim>\<open>{"v": 2}\<close> at address 1;
  an emitter in which \<^verbatim>\<open>EmitOnce("x", {"v": 1})\<close> has run to its end; the same
  after \<^verbatim>\<open>On("x", h)\<close>; and the run \<^verbatim>\<open>EmitOnce("x", {"v": 1})\<close>, \<^verbatim>\<open>On("x", h)\<close>,
  \<^verbatim>\<open>EmitOnce("x", {"v": 2})\<close>, each goroutine run to its end before the next call.
\<close>

definition ex_heap :: heap where
  "ex_heap = [[(''v'', VInt 1)], [(''v'', VInt 2)]]"

definition ex_start :: Emitter where
  "ex_start = (NewEmitter False)\<lparr>heap := ex_heap\<rparr>"

definition ex_cached :: Emitter where
  "ex_cached =
     (case EmitOnce 1 ex_start ''x'' (Some 0) of
        None \<Rightarrow> ex_start
      | Some (e1, t1) \<Rightarrow> Emit_go e1 t1)"



text \<open>
  Two payloads with a nested value of type \<^verbatim>\<open>Data\<close>: \<^verbatim>\<open>Data{"pos": Data{"x": 1}}\<close> at
  address 0 of \<open>ex_nested\<close>, and
  \<^verbatim>\<open>Data{"cfg": map[string]interface{}{"inner": Data{}}}\<close> at address 0 of \<open>ex_deep\<close>.
\<close>

definition ex_nested :: heap where
  "ex_nested = [[(''pos'', VData (Some 1))], [(''x'', VInt 1)]]"

definition ex_deep :: heap where
  "ex_deep = [[(''cfg'', VMap (Some 1))], [(''inner'', VData (Some 2))], []]"

lemma copyLoop_Cons:
  "copyLoop rec d nd ((k, v) # es) h =
     (case copyVal rec d h v of
        None \<Rightarrow> None
      | Some (h1, v1) \<Rightarrow> copyLoop rec d nd es (store h1 nd k v1))"
  by (cases v) (simp_all add: copyVal_def split: option.split)

lemma store_length [simp]: "length (store h a k v) = length h"
  by (simp add: store_def)

lemma store_nth_other: "b \<noteq> a \<Longrightarrow> store h a k v ! b = h ! b"
  by (simp add: store_def)

lemma take_store: "n \<le> a \<Longrightarrow> take n (store h a k v) = take n h"
  by (simp add: store_def)

lemma copyVal_frame:
  assumes "frame rec" and "copyVal rec d h v = Some (h1, v1)"
  shows "length h \<le> length h1 \<and> take (length h) h1 = h"
proof (cases v)
  case (VData t)
  with assms(2) obtain c where "rec h d = Some (h1, c)"
    by (auto simp: copyVal_def)
  with assms(1) show ?thesis unfolding frame_def by blast
next
  case (VMap t)
  with assms(2) obtain c where "rec h t = Some (h1, c)"
    by (auto simp: copyVal_def)
  with assms(1) show ?thesis unfolding frame_def by blast
qed (use assms(2) in \<open>simp_all add: copyVal_def\<close>)

lemma take_le_eq:
  assumes "take m ys = xs" and "n \<le> m"
  shows "take n ys = take n xs"
proof -
  have "take n (take m ys) = take n ys" using assms(2) by (simp add: min_def)
  with assms(1) show ?thesis by simp
qed

lemma copyLoop_frame:
  assumes "frame rec"
  shows "copyLoop rec d nd es h = Some (h', c) \<Longrightarrow> n \<le> nd \<Longrightarrow> n \<le> length h \<Longrightarrow>
         c = nd \<and> length h \<le> length h' \<and> take n h' = take n h"
proof (induction es arbitrary: h)
  case Nil
  then show ?case by simp
next
  case (Cons e es)
  obtain k v where e: "e = (k, v)" by (cases e)
  from Cons.prems(1) obtain h1 v1 where r: "copyVal rec d h v = Some (h1, v1)"
    and l: "copyLoop rec d nd es (store h1 nd k v1) = Some (h', c)"
    unfolding e copyLoop_Cons by (simp split: option.splits prod.splits)
  from copyVal_frame [OF assms r] have f: "length h \<le> length h1" "take (length h) h1 = h"
    by simp_all
  have n1: "n \<le> length (store h1 nd k v1)" using f(1) Cons.prems(3) by simp
  from Cons.IH [OF l Cons.prems(2) n1]
  have ih: "c = nd" "length h1 \<le> length h'" "take n h' = take n (store h1 nd k v1)"
    by simp_all
  have "take n (store h1 nd k v1) = take n h1" using Cons.prems(2) by (rule take_store)
  also have "\<dots> = take n h" using f(2) Cons.prems(3) by (rule take_le_eq)
  finally have "take n (store h1 nd k v1) = take n h" .
  with ih f(1) show ?case by simp
qed

lemma copyData_frame: "frame (copyData n)"
proof (induction n)
  case 0
  show ?case by (simp add: frame_def)
next
  case (Suc n)
  show ?case
    unfolding frame_def
  proof (intro allI impI)
    fix h t h' c
    assume "copyData (Suc n) h t = Some (h', c)"
    then have "copyLoop (copyData n) t (length h) (entries h t) (h @ [[]]) = Some (h', c)" by simp
    from copyLoop_frame [OF Suc this, of "length h"]
    show "length h \<le> length h' \<and> take (length h) h' = h" by simp
  qed
qed



lemma frame_nth:
  assumes "take (length h) h1 = h" and "a < length h"
  shows "h1 ! a = h ! a"
proof -
  have "take (length h) h1 ! a = h1 ! a" using assms(2) by simp
  with assms(1) show ?thesis by simp
qed

lemma copyVal_VData_None:
  "rec h d = None \<Longrightarrow> copyVal rec d h (VData t) = None"
  by (simp add: copyVal_def)

lemma copyLoop_diverges:
  assumes fr: "frame rec"
    and div: "\<And>h. a < length h \<Longrightarrow> h ! a = m \<Longrightarrow> rec h (Some a) = None"
  shows "(k0, VData t0) \<in> set es \<Longrightarrow> a < length h \<Longrightarrow> h ! a = m \<Longrightarrow> a \<noteq> nd \<Longrightarrow>
         copyLoop rec (Some a) nd es h = None"
proof (induction es arbitrary: h)
  case Nil
  then show ?case by simp
next
  case (Cons e es)
  obtain k v where e: "e = (k, v)" by (cases e)
  show ?case
  proof (cases "copyVal rec (Some a) h v")
    case None
    then show ?thesis unfolding e copyLoop_Cons by simp
  next
    case (Some r)
    obtain h1 v1 where r: "r = (h1, v1)" by (cases r)
    have ne: "(k, v) \<noteq> (k0, VData t0)"
    proof
      assume "(k, v) = (k0, VData t0)"
      then have "copyVal rec (Some a) h v = None"
        using div [OF Cons.prems(2,3)] by (simp add: copyVal_VData_None)
      with Some show False by simp
    qed
    with Cons.prems(1) e have mem: "(k0, VData t0) \<in> set es" by auto
    from copyVal_frame [OF fr Some [unfolded r]]
    have f: "length h \<le> length h1" "take (length h) h1 = h" by simp_all
    have a1: "a < length (store h1 nd k v1)" using f(1) Cons.prems(2) by simp
    have "store h1 nd k v1 ! a = h1 ! a" using Cons.prems(4) by (rule store_nth_other)
    also have "\<dots> = h ! a" using f(2) Cons.prems(2) by (rule frame_nth)
    finally have a2: "store h1 nd k v1 ! a = m" using Cons.prems(3) by simp
    from Cons.IH [OF mem a1 a2 Cons.prems(4)] Some r
    show ?thesis unfolding e copyLoop_Cons by simp
  qed
qed

lemma copyData_diverges:
  "(k, VData t) \<in> set (h ! a) \<Longrightarrow> a < length h \<Longrightarrow> copyData n h (Some a) = None"
proof (induction n arbitrary: h)
  case 0
  show ?case by simp
next
  case (Suc n)
  define m where "m = h ! a"
  have div: "\<And>h'. a < length h' \<Longrightarrow> h' ! a = m \<Longrightarrow> copyData n h' (Some a) = None"
    using Suc.IH Suc.prems(1) unfolding m_def by metis
  have "copyLoop (copyData n) (Some a) (length h) m (h @ [[]]) = None"
  proof (rule copyLoop_diverges [OF copyData_frame div])
    show "(k, VData t) \<in> set m" using Suc.prems(1) by (simp add: m_def)
    show "a < length (h @ [[]])" using Suc.prems(2) by simp
    show "(h @ [[]]) ! a = m" using Suc.prems(2) by (simp add: m_def nth_append)
    show "a \<noteq> length h" using Suc.prems(2) by simp
  qed
  then show ?case using Suc.prems(2) by (simp add: m_def)
qed

lemma update_fresh: "k \<notin> fst ` set acc \<Longrightarrow> AList.update k v acc = acc @ [(k, v)]"
  by (induction acc) auto

lemma copyVal_flat: "\<not> is_map v \<Longrightarrow> copyVal rec d h v = Some (h, v)"
  by (cases v) (simp_all add: copyVal_def)


lemma copyLoop_flat:
  "flat es \<Longrightarrow> distinct (map fst es) \<Longrightarrow> nd < length h \<Longrightarrow> fst ` set (h ! nd) \<inter> fst ` set es = {} \<Longrightarrow>
   copyLoop rec d nd es h = Some (h[nd := h ! nd @ es], nd)"
proof (induction es arbitrary: h)
  case Nil
  then show ?case by simp
next
  case (Cons e es)
  obtain k v where e: "e = (k, v)" by (cases e)
  from Cons.prems(1) e have nv: "\<not> is_map v" and fl: "flat es" by (simp_all add: flat_def)
  from Cons.prems(2) e have kn: "k \<notin> fst ` set es" and di: "distinct (map fst es)" by auto
  from Cons.prems(4) e have kf: "k \<notin> fst ` set (h ! nd)" by auto
  have st: "store h nd k v = h[nd := h ! nd @ [(k, v)]]"
    using Cons.prems(3) kf by (simp add: store_def update_fresh)
  have l: "nd < length (store h nd k v)" using Cons.prems(3) by simp
  have "fst ` set (store h nd k v ! nd) \<inter> fst ` set es = {}"
    using Cons.prems(3,4) kn e unfolding st by auto
  from Cons.IH [OF fl di l this]
  have "copyLoop rec d nd es (store h nd k v) = Some ((store h nd k v)[nd := store h nd k v ! nd @ es], nd)" .
  moreover have "(store h nd k v)[nd := store h nd k v ! nd @ es] = h[nd := h ! nd @ (k, v) # es]"
    unfolding st using Cons.prems(3) by simp
  ultimately have "copyLoop rec d nd es (store h nd k v) = Some (h[nd := h ! nd @ (k, v) # es], nd)"
    by simp
  then show ?case unfolding e copyLoop_Cons copyVal_flat [OF nv] by simp
qed

lemma copyData_flat:
  assumes "a < length h" and "flat (h ! a)" and "distinct (map fst (h ! a))"
  shows "copyData (Suc n) h (Some a) = Some (h @ [h ! a], length h)"
proof -
  have "copyLoop (copyData n) (Some a) (length h) (h ! a) (h @ [[]])
        = Some ((h @ [[]])[length h := (h @ [[]]) ! length h @ h ! a], length h)"
    using assms(2,3) by (intro copyLoop_flat) simp_all
  then show ?thesis using assms(1) by simp
qed







lemma copyData_result:
  assumes "copyData n h d = Some (h1, c)"
  shows "c = length h \<and> length h < length h1 \<and> take (length h) h1 = h"
proof (cases n)
  case 0
  with assms show ?thesis by simp
next
  case (Suc m)
  with assms have l: "copyLoop (copyData m) d (length h) (entries h d) (h @ [[]]) = Some (h1, c)"
    by simp
  from copyLoop_frame [OF copyData_frame l, of "length h"] show ?thesis by simp
qed


lemma call_shape:
  "call hs hp d = (hs', tr, r) \<Longrightarrow>
   length tr \<le> length hs \<and>
   tr = map (\<lambda>en. Called (hid (handler en)) d) (take (length tr) hs) \<and>
   hs' = filter (\<lambda>en. \<not> once en) (take (length tr) hs) @ drop (length tr) hs \<and>
   (\<forall>j < length tr - 1. Call (handler (hs ! j)) hp d = None) \<and>
   (case r of None \<Rightarrow> length tr = length hs \<and> (\<forall>j < length hs. Call (handler (hs ! j)) hp d = None)
            | Some er \<Rightarrow> 0 < length tr \<and> Call (handler (hs ! (length tr - 1))) hp d = Some er)"
proof (induction hs arbitrary: hs' tr r)
  case Nil
  then show ?case by simp
next
  case (Cons en ens)
  show ?case
  proof (cases "Call (handler en) hp d")
    case (Some er)
    with Cons.prems have eq: "hs' = (if once en then [] else [en]) @ ens"
      "tr = [Called (hid (handler en)) d]" "r = Some er"
      by (simp_all add: Let_def)
    show ?thesis unfolding eq using Some by simp
  next
    case None
    obtain ens' tr' r' where c: "call ens hp d = (ens', tr', r')" by (cases "call ens hp d")
    from Cons.IH [OF c] have ih:
      "length tr' \<le> length ens"
      "tr' = map (\<lambda>en. Called (hid (handler en)) d) (take (length tr') ens)"
      "ens' = filter (\<lambda>en. \<not> once en) (take (length tr') ens) @ drop (length tr') ens"
      "\<forall>j < length tr' - 1. Call (handler (ens ! j)) hp d = None"
      "case r' of None \<Rightarrow> length tr' = length ens \<and> (\<forall>j < length ens. Call (handler (ens ! j)) hp d = None)
            | Some er \<Rightarrow> 0 < length tr' \<and> Call (handler (ens ! (length tr' - 1))) hp d = Some er"
      by simp_all
    from Cons.prems None c have eq: "hs' = (if once en then [] else [en]) @ ens'"
      "tr = Called (hid (handler en)) d # tr'" "r = r'"
      by (simp_all add: Let_def)
    have 1: "length tr \<le> length (en # ens)" using eq ih(1) by simp
    have 2: "tr = map (\<lambda>en. Called (hid (handler en)) d) (take (length tr) (en # ens))"
      using eq(2) ih(2) by simp
    have 3: "hs' = filter (\<lambda>en. \<not> once en) (take (length tr) (en # ens)) @ drop (length tr) (en # ens)"
      using eq(1,2) ih(3) by simp
    have 4: "\<forall>j < length tr - 1. Call (handler ((en # ens) ! j)) hp d = None"
    proof (intro allI impI)
      fix j assume j: "j < length tr - 1"
      show "Call (handler ((en # ens) ! j)) hp d = None"
      proof (cases j)
        case 0
        then show ?thesis using None by simp
      next
        case (Suc i)
        with j eq(2) have "i < length tr' - 1" by simp
        with ih(4) Suc show ?thesis by simp
      qed
    qed
    have 5: "case r of None \<Rightarrow> length tr = length (en # ens) \<and> (\<forall>j < length (en # ens). Call (handler ((en # ens) ! j)) hp d = None)
            | Some er \<Rightarrow> 0 < length tr \<and> Call (handler ((en # ens) ! (length tr - 1))) hp d = Some er"
    proof (cases r')
      case None': None
      with ih(5) have a: "length tr' = length ens" "\<forall>j < length ens. Call (handler (ens ! j)) hp d = None"
        by simp_all
      have "\<forall>j < length (en # ens). Call (handler ((en # ens) ! j)) hp d = None"
      proof (intro allI impI)
        fix j assume "j < length (en # ens)"
        then show "Call (handler ((en # ens) ! j)) hp d = None"
          using None a(2) by (cases j) simp_all
      qed
      with a(1) eq None' show ?thesis by simp
    next
      case (Some er)
      with ih(5) have a: "0 < length tr'" "Call (handler (ens ! (length tr' - 1))) hp d = Some er"
        by simp_all
      from a(1) obtain m where m: "length tr' = Suc m" by (cases "length tr'") simp_all
      with a(2) eq Some show ?thesis by simp
    qed
    from 1 2 3 4 5 show ?thesis by blast
  qed
qed

lemma emit_eq:
  "emit e k d =
     (e\<lparr>handlers := (case handlers e k of None \<Rightarrow> handlers e
                       | Some hs \<Rightarrow> (handlers e)(k \<mapsto> fst (call hs (heap e) d))),
        trace := trace e @ invoked e k d\<rparr>,
      outcome e k d)"
  by (simp add: emit_def invoked_def outcome_def hset_def split: option.split prod.split)

lemma emit_fields:
  "heap (fst (emit e k d)) = heap e"
  "log (fst (emit e k d)) = log e"
  "chans (fst (emit e k d)) = chans e"
  "oneTimeEmissions (fst (emit e k d)) = oneTimeEmissions e"
  "trace (fst (emit e k d)) = trace e @ invoked e k d"
  "snd (emit e k d) = outcome e k d"
  by (simp_all add: emit_eq)

lemma emit_hset_other: "k' \<noteq> k \<Longrightarrow> hset (fst (emit e k d)) k' = hset e k'"
  by (simp add: emit_eq hset_def split: option.split)

lemma emit_invoked_other: "k' \<noteq> k \<Longrightarrow> invoked (fst (emit e k d)) k' d' = invoked e k' d'"
  by (simp add: invoked_def emit_hset_other emit_fields)

lemma emit_outcome_other: "k' \<noteq> k \<Longrightarrow> outcome (fst (emit e k d)) k' d' = outcome e k' d'"
  by (simp add: outcome_def emit_hset_other emit_fields)

lemma meta_names:
  "evt \<noteq> ''before:'' @ evt" "evt \<noteq> ''after:'' @ evt" "''after:'' @ evt \<noteq> ''before:'' @ evt"
  "''before:'' @ evt \<noteq> evt" "''after:'' @ evt \<noteq> evt" "''before:'' @ evt \<noteq> ''after:'' @ evt"
proof -
  have a: "length evt \<noteq> length (''before:'' @ evt)" by simp
  have b: "length evt \<noteq> length (''after:'' @ evt)" by simp
  from a show "evt \<noteq> ''before:'' @ evt" by metis
  from b show "evt \<noteq> ''after:'' @ evt" by metis
  from a show "''before:'' @ evt \<noteq> evt" by metis
  from b show "''after:'' @ evt \<noteq> evt" by metis
  show "''after:'' @ evt \<noteq> ''before:'' @ evt" by simp
  show "''before:'' @ evt \<noteq> ''after:'' @ evt" by simp
qed

lemma logf_fields:
  "heap (logf e lv fs m) = heap e"
  "chans (logf e lv fs m) = chans e"
  "handlers (logf e lv fs m) = handlers e"
  "log (logf e lv fs m) = log e"
  "oneTimeEmissions (logf e lv fs m) = oneTimeEmissions e"
  "trace (logf e lv fs m) = trace e @ (if log e then [Logged lv fs m] else [])"
  by (simp_all add: logf_def)

lemma send_fields:
  "heap (send e c) = heap e"
  "handlers (send e c) = handlers e"
  "log (send e c) = log e"
  "oneTimeEmissions (send e c) = oneTimeEmissions e"
  "trace (send e c) = trace e @ (if c < length (chans e) then [Sent c] else [])"
  "chans (send e c) = (if c < length (chans e) then (chans e)[c := chans e ! c + 1] else chans e)"
  by (simp_all add: send_def)

lemma report_cases:
  "trace (case r of None \<Rightarrow> e3
               | Some er \<Rightarrow> (if er = ErrHalt
                     then logf e3 LDebug [FEvent (tevt t), FData (tdata t)] ''Event emission halted.''
                     else logf e3 LError [FError (Error er), FEvent (tevt t), FData (tdata t)]
                            ''Failed during execution of event handlers.''))
   = trace e3 @ report e3 t r"
  by (simp add: report_def logf_fields split: option.split)

lemma report_log: "log e' = log e \<Longrightarrow> report e' t r = report e t r"
  by (simp add: report_def split: option.split)

lemma final_fields:
  "chans (case r of None \<Rightarrow> e3
               | Some er \<Rightarrow> (if er = ErrHalt
                     then logf e3 LDebug fs1 m1
                     else logf e3 LError (fs2 er) m2)) = chans e3"
  "heap (case r of None \<Rightarrow> e3
               | Some er \<Rightarrow> (if er = ErrHalt
                     then logf e3 LDebug fs1 m1
                     else logf e3 LError (fs2 er) m2)) = heap e3"
  "log (case r of None \<Rightarrow> e3
               | Some er \<Rightarrow> (if er = ErrHalt
                     then logf e3 LDebug fs1 m1
                     else logf e3 LError (fs2 er) m2)) = log e3"
  "oneTimeEmissions (case r of None \<Rightarrow> e3
               | Some er \<Rightarrow> (if er = ErrHalt
                     then logf e3 LDebug fs1 m1
                     else logf e3 LError (fs2 er) m2)) = oneTimeEmissions e3"
  by (simp_all add: logf_fields split: option.split)

lemma Emit_go_run:
  "trace (Emit_go e t) =
     trace e @ invoked e (''before:'' @ tevt t) (tdata t) @
     (if outcome e (''before:'' @ tevt t) (tdata t) = None
      then invoked e (tevt t) (tdata t) @
           (if outcome e (tevt t) (tdata t) = None
            then invoked e (''after:'' @ tevt t) (tdata t) @
                 report e t (outcome e (''after:'' @ tevt t) (tdata t))
            else report e t (outcome e (tevt t) (tdata t)))
      else report e t (outcome e (''before:'' @ tevt t) (tdata t))) @
     (if tdone t < length (chans e) then [Sent (tdone t)] else []) \<and>
   chans (Emit_go e t) =
     (if tdone t < length (chans e) then (chans e)[tdone t := chans e ! tdone t + 1]
      else chans e) \<and>
   heap (Emit_go e t) = heap e \<and> log (Emit_go e t) = log e \<and>
   oneTimeEmissions (Emit_go e t) = oneTimeEmissions e"
proof -
  define B where "B = ''before:'' @ tevt t"
  define A where "A = ''after:'' @ tevt t"
  define d where "d = tdata t"
  define v where "v = tevt t"
  have ne: "v \<noteq> B" "A \<noteq> B" "A \<noteq> v"
    unfolding A_def B_def v_def by (rule meta_names)+
  obtain e1 r1 where 1: "emit e B d = (e1, r1)" by (cases "emit e B d")
  have e1: "e1 = fst (emit e B d)" and r1: "r1 = outcome e B d"
    using 1 emit_fields(6) [of e B d] by simp_all
  have f1: "log e1 = log e" "chans e1 = chans e" "heap e1 = heap e"
    "oneTimeEmissions e1 = oneTimeEmissions e" "trace e1 = trace e @ invoked e B d"
    unfolding e1 by (simp_all add: emit_fields)
  have i2: "invoked e1 v d = invoked e v d" and o2: "outcome e1 v d = outcome e v d"
    unfolding e1 using ne(1) by (rule emit_invoked_other, rule emit_outcome_other)
  have i3': "invoked e1 A d = invoked e A d" and o3': "outcome e1 A d = outcome e A d"
    unfolding e1 using ne(2) by (rule emit_invoked_other, rule emit_outcome_other)
  obtain e2 r2 where 2: "(if r1 = None then emit e1 v d else (e1, r1)) = (e2, r2)"
    by (cases "if r1 = None then emit e1 v d else (e1, r1)")
  have e2: "e2 = (if r1 = None then fst (emit e1 v d) else e1)"
    and r2: "r2 = (if r1 = None then outcome e v d else r1)"
    using 2 emit_fields(6) [of e1 v d] o2 by (auto split: if_splits)
  have f2: "log e2 = log e" "chans e2 = chans e" "heap e2 = heap e"
    "oneTimeEmissions e2 = oneTimeEmissions e"
    "trace e2 = trace e @ invoked e B d @ (if r1 = None then invoked e v d else [])"
    unfolding e2 by (simp_all add: emit_fields f1 i2)
  have "invoked (fst (emit e1 v d)) A d = invoked e1 A d"
    and "outcome (fst (emit e1 v d)) A d = outcome e1 A d"
    using ne(3) by (rule emit_invoked_other, rule emit_outcome_other)
  then have i3: "invoked e2 A d = invoked e A d" and o3: "outcome e2 A d = outcome e A d"
    unfolding e2 using i3' o3' by simp_all
  obtain e3 r3 where 3: "(if r2 = None then emit e2 A d else (e2, r2)) = (e3, r3)"
    by (cases "if r2 = None then emit e2 A d else (e2, r2)")
  have e3: "e3 = (if r2 = None then fst (emit e2 A d) else e2)"
    and r3: "r3 = (if r2 = None then outcome e A d else r2)"
    using 3 emit_fields(6) [of e2 A d] o3 by (auto split: if_splits)
  have f3: "log e3 = log e" "chans e3 = chans e" "heap e3 = heap e"
    "oneTimeEmissions e3 = oneTimeEmissions e"
    "trace e3 = trace e @ invoked e B d @ (if r1 = None then invoked e v d else []) @
       (if r2 = None then invoked e A d else [])"
    unfolding e3 by (simp_all add: emit_fields f2 i3)
  have go: "Emit_go e t = send (case r3 of None \<Rightarrow> e3
               | Some er \<Rightarrow> (if er = ErrHalt
                     then logf e3 LDebug [FEvent (tevt t), FData (tdata t)] ''Event emission halted.''
                     else logf e3 LError [FError (Error er), FEvent (tevt t), FData (tdata t)]
                            ''Failed during execution of event handlers.'')) (tdone t)"
    unfolding Emit_go_def Let_def B_def [symmetric] A_def [symmetric]
    unfolding d_def [symmetric] v_def [symmetric] 1 prod.case 2 3
    unfolding d_def v_def ..
  have tr: "trace (Emit_go e t) = trace e3 @ report e t r3 @
       (if tdone t < length (chans e) then [Sent (tdone t)] else [])"
    unfolding go by (simp add: send_fields final_fields report_cases f3 report_log [OF f3(1)])
  have "trace e3 @ report e t r3 =
     trace e @ invoked e B d @
     (if outcome e B d = None
      then invoked e v d @
           (if outcome e v d = None
            then invoked e A d @ report e t (outcome e A d)
            else report e t (outcome e v d))
      else report e t (outcome e B d))"
    unfolding f3 r3 r2 r1 by auto
  with tr have "trace (Emit_go e t) =
     trace e @ invoked e B d @
     (if outcome e B d = None
      then invoked e v d @
           (if outcome e v d = None
            then invoked e A d @ report e t (outcome e A d)
            else report e t (outcome e v d))
      else report e t (outcome e B d)) @
     (if tdone t < length (chans e) then [Sent (tdone t)] else [])"
    by simp
  moreover have "chans (Emit_go e t) =
     (if tdone t < length (chans e) then (chans e)[tdone t := chans e ! tdone t + 1]
      else chans e)"
    unfolding go by (simp add: send_fields final_fields f3)
  moreover have "heap (Emit_go e t) = heap e" "log (Emit_go e t) = log e"
    "oneTimeEmissions (Emit_go e t) = oneTimeEmissions e"
    unfolding go by (simp_all add: send_fields final_fields f3)
  ultimately show ?thesis unfolding B_def A_def d_def v_def by blast
qed

lemma calls_append: "calls (xs @ ys) = calls xs @ calls ys"
  by (induction xs rule: calls.induct) simp_all


lemma calls_report: "calls (report e t r) = []"
  by (simp add: report_def split: option.split)


lemma call_trace_map:
  "fst (snd (call hs hp d)) =
     map (\<lambda>en. Called (hid (handler en)) d) (take (length (fst (snd (call hs hp d)))) hs)"
proof -
  obtain hs' tr r where c: "call hs hp d = (hs', tr, r)" by (cases "call hs hp d")
  from call_shape [OF c] show ?thesis unfolding c by simp
qed

lemma Emit_result:
  assumes "Emit n e evt d = Some (e0, t)"
  shows "t = \<lparr>tevt = evt, tdata = Some (length (heap e)), tdone = length (chans e)\<rparr>"
    and "e0 = e\<lparr>heap := heap e0, chans := chans e @ [0],
                 trace := trace e @
                   (if (HasPrefix evt ''before:'' \<or> HasPrefix evt ''after:'') \<and> log e
                    then [Logged LWarn [FEvent evt, FData d] metaWarning] else [])\<rparr>"
    and "if d = None then heap e0 = heap e @ [[]]
         else copyData n (heap e) d = Some (heap e0, length (heap e))"
proof -
  define e1 where "e1 = (if HasPrefix evt ''before:'' \<or> HasPrefix evt ''after:''
                then logf e LWarn [FEvent evt, FData d] metaWarning
                else e)"
  have f1: "heap e1 = heap e" "chans e1 = chans e"
    "e1 = e\<lparr>trace := trace e @
                   (if (HasPrefix evt ''before:'' \<or> HasPrefix evt ''after:'') \<and> log e
                    then [Logged LWarn [FEvent evt, FData d] metaWarning] else [])\<rparr>"
    unfolding e1_def by (simp_all add: logf_def)
  obtain hp a where c: "(if d = None then Some (NewData (heap e)) else copyData n (heap e) d) = Some (hp, a)"
    and r: "e0 = e1\<lparr>heap := hp, chans := chans e1 @ [0]\<rparr>"
      "t = \<lparr>tevt = evt, tdata = Some a, tdone = length (chans e1)\<rparr>"
    using assms unfolding Emit_def Let_def e1_def [symmetric] f1(1)
    by (auto split: option.splits)
  have a: "a = length (heap e)"
  proof (cases "d = None")
    case True
    with c show ?thesis by (simp add: NewData_def)
  next
    case False
    with c have "copyData n (heap e) d = Some (hp, a)" by simp
    from copyData_result [OF this] show ?thesis by simp
  qed
  show "t = \<lparr>tevt = evt, tdata = Some (length (heap e)), tdone = length (chans e)\<rparr>"
    using r(2) a f1(2) by simp
  have hp: "heap e0 = hp" using r(1) by simp
  show "e0 = e\<lparr>heap := heap e0, chans := chans e @ [0],
                 trace := trace e @
                   (if (HasPrefix evt ''before:'' \<or> HasPrefix evt ''after:'') \<and> log e
                    then [Logged LWarn [FEvent evt, FData d] metaWarning] else [])\<rparr>"
    unfolding hp r(1) f1(2) by (subst f1(3)) simp
  show "if d = None then heap e0 = heap e @ [[]]
         else copyData n (heap e) d = Some (heap e0, length (heap e))"
    using c a unfolding hp by (cases d) (simp_all add: NewData_def)
qed

lemma Emit_fields:
  assumes "Emit n e evt d = Some (e0, t)"
  shows "handlers e0 = handlers e" "log e0 = log e" "oneTimeEmissions e0 = oneTimeEmissions e"
    "chans e0 = chans e @ [0]" "tevt t = evt" "tdone t = length (chans e)"
    "tdata t = Some (length (heap e))"
    "trace e0 = trace e @
                   (if (HasPrefix evt ''before:'' \<or> HasPrefix evt ''after:'') \<and> log e
                    then [Logged LWarn [FEvent evt, FData d] metaWarning] else [])"
proof -
  note r = Emit_result [OF assms]
  show "handlers e0 = handlers e" by (subst r(2)) simp
  show "log e0 = log e" by (subst r(2)) simp
  show "oneTimeEmissions e0 = oneTimeEmissions e" by (subst r(2)) simp
  show "chans e0 = chans e @ [0]" by (subst r(2)) simp
  show "trace e0 = trace e @
                   (if (HasPrefix evt ''before:'' \<or> HasPrefix evt ''after:'') \<and> log e
                    then [Logged LWarn [FEvent evt, FData d] metaWarning] else [])"
    by (subst r(2)) simp
  show "tevt t = evt" "tdone t = length (chans e)" "tdata t = Some (length (heap e))"
    unfolding r(1) by simp_all
qed

text \<open>
  Claim C1. For every event name \<open>evt\<close> and payload \<open>d\<close>, the goroutine started by
  \<^verbatim>\<open>Emit(evt, d)\<close> calls the handler set of \<^verbatim>\<open>"before:"+evt\<close> first; only if that
  returned no error, the handler set of \<^verbatim>\<open>evt\<close>; only if that returned no error, the
  handler set of \<^verbatim>\<open>"after:"+evt\<close>. The first error of a phase, \<^verbatim>\<open>ErrHalt\<close> or any
  other, skips the phases after it. Stated on the handler invocations of the trace:
  those of the goroutine are the invocations of the first phase, followed by those of
  the second and third phase exactly when the phase before returned nil.
\<close>

theorem Emit_dispatch_phases:
  assumes "Emit n e evt d = Some (e0, t)"
  shows "calls (trace (Emit_go e0 t)) =
           calls (trace e0) @ calls (invoked e0 (''before:'' @ evt) (tdata t)) @
           (if outcome e0 (''before:'' @ evt) (tdata t) = None
            then calls (invoked e0 evt (tdata t)) @
                 (if outcome e0 evt (tdata t) = None
                  then calls (invoked e0 (''after:'' @ evt) (tdata t))
                  else [])
            else [])"
proof -
  have ev: "tevt t = evt" using assms by (rule Emit_fields)
  have "calls (if tdone t < length (chans e0) then [Sent (tdone t)] else []) = []" by simp
  then show ?thesis
    using Emit_go_run [of e0 t] unfolding ev
    by (simp add: calls_append calls_report)
qed

theorem Emit_dispatch_phases_witness:
  "Emit 1 ex_halt ''x'' None =
     Some (ex_halt\<lparr>heap := [[]], chans := [0]\<rparr>, \<lparr>tevt = ''x'', tdata = Some 0, tdone = 0\<rparr>) \<and>
   calls (trace (Emit_go (ex_halt\<lparr>heap := [[]], chans := [0]\<rparr>)
                   \<lparr>tevt = ''x'', tdata = Some 0, tdone = 0\<rparr>)) =
     [(1, Some 0), (2, Some 0)]"
proof -
  have h: "Emit 1 ex_halt ''x'' None =
     Some (ex_halt\<lparr>heap := [[]], chans := [0]\<rparr>, \<lparr>tevt = ''x'', tdata = Some 0, tdone = 0\<rparr>)"
    by (simp add: Emit_def ex_halt_def NewEmitter_def NewData_def HasPrefix_def)
  from Emit_dispatch_phases [OF h] h show ?thesis
    by (simp add: invoked_def outcome_def hset_def ex_halt_def NewEmitter_def quiet_def halting_def)
qed











lemma call_subset:
  assumes "call hs hp d = (hs', tr, r)"
  shows "set hs' \<subseteq> set hs"
proof -
  from call_shape [OF assms]
  have "hs' = filter (\<lambda>en. \<not> once en) (take (length tr) hs) @ drop (length tr) hs" by simp
  then have "set hs' \<subseteq> set (take (length tr) hs) \<union> set (drop (length tr) hs)" by auto
  also have "\<dots> = set hs" by (metis append_take_drop_id set_append)
  finally show ?thesis .
qed

lemma call_ids:
  assumes "call hs hp d = (hs', tr, r)" and "Called x p \<in> set tr"
  shows "x \<in> (\<lambda>en. hid (handler en)) ` set hs"
proof -
  from call_shape [OF assms(1)]
  have "tr = map (\<lambda>en. Called (hid (handler en)) d) (take (length tr) hs)" by simp
  with assms(2) have "Called x p \<in> (\<lambda>en. Called (hid (handler en)) d) ` set (take (length tr) hs)"
    by (metis set_map)
  then obtain en where "en \<in> set (take (length tr) hs)" "x = hid (handler en)" by auto
  moreover have "set (take (length tr) hs) \<subseteq> set hs" by (rule set_take_subset)
  ultimately show ?thesis by auto
qed

lemma calls_seq_ids:
  "Called x p \<in> set (calls_seq hs ps) \<Longrightarrow> x \<in> (\<lambda>en. hid (handler en)) ` set hs"
proof (induction ps arbitrary: hs)
  case Nil
  then show ?case by simp
next
  case (Cons q ps)
  obtain hp d where q: "q = (hp, d)" by (cases q)
  obtain hs' tr r where c: "call hs hp d = (hs', tr, r)" by (cases "call hs hp d")
  from Cons.prems have "Called x p \<in> set tr \<or> Called x p \<in> set (calls_seq hs' ps)"
    unfolding q by (simp add: c)
  then show ?case
  proof
    assume "Called x p \<in> set tr"
    with c show ?thesis by (rule call_ids)
  next
    assume "Called x p \<in> set (calls_seq hs' ps)"
    then have "x \<in> (\<lambda>en. hid (handler en)) ` set hs'" by (rule Cons.IH)
    with call_subset [OF c] show ?thesis by auto
  qed
qed

lemma removed_id:
  assumes hs': "hs' = filter (\<lambda>en. \<not> once en) (take n hs) @ drop n hs"
    and i: "i < n" "n \<le> length hs" and o: "once (hs ! i)"
    and u: "\<forall>j < length hs. j \<noteq> i \<longrightarrow> hid (handler (hs ! j)) \<noteq> hid (handler (hs ! i))"
  shows "hid (handler (hs ! i)) \<notin> (\<lambda>en. hid (handler en)) ` set hs'"
proof
  assume "hid (handler (hs ! i)) \<in> (\<lambda>en. hid (handler en)) ` set hs'"
  then obtain en where en: "en \<in> set hs'" "hid (handler en) = hid (handler (hs ! i))" by auto
  from en(1) hs' consider "en \<in> set (take n hs)" "\<not> once en" | "en \<in> set (drop n hs)" by auto
  then obtain j where j: "j < length hs" "hs ! j = en" "j \<noteq> i"
  proof cases
    case 1
    then obtain j where "j < length (take n hs)" "take n hs ! j = en"
      by (auto simp: in_set_conv_nth)
    then have "j < length hs" "hs ! j = en" by simp_all
    moreover have "j \<noteq> i" using 1(2) o \<open>hs ! j = en\<close> by auto
    ultimately show ?thesis by (rule that)
  next
    case 2
    then obtain j where "j < length (drop n hs)" "drop n hs ! j = en"
      by (auto simp: in_set_conv_nth)
    then have "n + j < length hs" "hs ! (n + j) = en" using i(2) by simp_all
    moreover have "n + j \<noteq> i" using i(1) by simp
    ultimately show ?thesis by (rule that)
  qed
  with u en(2) show False by auto
qed

text \<open>
  Claim C7 (on the handler set modelled from the spec). For every once-flagged entry of
  a handler set, after \<^verbatim>\<open>call\<close> has invoked the entry's handler the entry is no longer
  in the sequence, also when that invocation is the one that returned the error: the
  invoked entries are the first \<open>length tr\<close> ones, the entry that returned an error is
  the last of them, and the sequence left is the invoked entries without the
  once-flagged ones, followed by the entries not reached. So a once-handler that has
  been invoked (its identity belonging to no other entry) is invoked by no later call on
  that set.
\<close>

theorem call_consumes_once:
  assumes "call hs hp d = (hs', tr, r)"
  shows "length tr \<le> length hs \<and>
         tr = map (\<lambda>en. Called (hid (handler en)) d) (take (length tr) hs) \<and>
         hs' = filter (\<lambda>en. \<not> once en) (take (length tr) hs) @ drop (length tr) hs \<and>
         (\<forall>er. r = Some er \<longrightarrow>
            0 < length tr \<and> Call (handler (hs ! (length tr - 1))) hp d = Some er) \<and>
         (\<forall>i < length tr. once (hs ! i) \<longrightarrow>
            (\<forall>j < length hs. j \<noteq> i \<longrightarrow> hid (handler (hs ! j)) \<noteq> hid (handler (hs ! i))) \<longrightarrow>
            (\<forall>ps p. Called (hid (handler (hs ! i))) p \<notin> set (calls_seq hs' ps)))"
proof -
  note s = call_shape [OF assms]
  have 1: "length tr \<le> length hs"
    and 2: "tr = map (\<lambda>en. Called (hid (handler en)) d) (take (length tr) hs)"
    and 3: "hs' = filter (\<lambda>en. \<not> once en) (take (length tr) hs) @ drop (length tr) hs"
    using s by simp_all
  have 4: "\<forall>er. r = Some er \<longrightarrow>
            0 < length tr \<and> Call (handler (hs ! (length tr - 1))) hp d = Some er"
    using s by auto
  have 5: "\<forall>i < length tr. once (hs ! i) \<longrightarrow>
            (\<forall>j < length hs. j \<noteq> i \<longrightarrow> hid (handler (hs ! j)) \<noteq> hid (handler (hs ! i))) \<longrightarrow>
            (\<forall>ps p. Called (hid (handler (hs ! i))) p \<notin> set (calls_seq hs' ps))"
  proof (intro allI impI)
    fix i ps p
    assume i: "i < length tr" and o: "once (hs ! i)"
      and u: "\<forall>j < length hs. j \<noteq> i \<longrightarrow> hid (handler (hs ! j)) \<noteq> hid (handler (hs ! i))"
    from removed_id [OF 3 i 1 o u] calls_seq_ids [of "hid (handler (hs ! i))" p hs' ps]
    show "Called (hid (handler (hs ! i))) p \<notin> set (calls_seq hs' ps)" by blast
  qed
  from 1 2 3 4 5 show ?thesis by blast
qed

theorem call_consumes_once_witness:
  "call ex_set [] None =
     ([\<lparr>handler = quiet 2, once = False\<rparr>, \<lparr>handler = quiet 4, once = True\<rparr>],
      [Called 1 None, Called 2 None, Called 3 None], Some (Err ''boom'')) \<and>
   Called 3 None \<notin>
     set (calls_seq [\<lparr>handler = quiet 2, once = False\<rparr>, \<lparr>handler = quiet 4, once = True\<rparr>]
            [([], None), ([], None)])"
proof -
  have c: "call ex_set [] None =
     ([\<lparr>handler = quiet 2, once = False\<rparr>, \<lparr>handler = quiet 4, once = True\<rparr>],
      [Called 1 None, Called 2 None, Called 3 None], Some (Err ''boom''))"
    by (simp add: ex_set_def quiet_def failing_def)
  have o: "once (ex_set ! 2)" by (simp add: ex_set_def)
  have u: "hid (handler (ex_set ! j)) \<noteq> hid (handler (ex_set ! 2))"
    if "j < length ex_set" "j \<noteq> 2" for j
  proof -
    from that have "j = 0 \<or> j = 1 \<or> j = 3" by (auto simp: ex_set_def)
    then show ?thesis by (auto simp: ex_set_def quiet_def failing_def)
  qed
  have i: "hid (handler (ex_set ! 2)) = 3" by (simp add: ex_set_def failing_def)
  have l: "2 < length [Called 1 None, Called 2 None, Called 3 None]" by simp
  note t = call_consumes_once [OF c, THEN conjunct2, THEN conjunct2, THEN conjunct2,
      THEN conjunct2, rule_format, OF l o u]
  have "Called (hid (handler (ex_set ! 2))) None \<notin>
     set (calls_seq [\<lparr>handler = quiet 2, once = False\<rparr>, \<lparr>handler = quiet 4, once = True\<rparr>]
            [([], None), ([], None)])"
    by (rule t)
  with c i show ?thesis by simp
qed

lemma On_hset:
  assumes "On n e evt h = Some e'"
  shows "hset e' evt = hset e evt @ [\<lparr>handler = h, once = False\<rparr>]"
proof -
  define hs where "hs = (case handlers e evt of Some hs \<Rightarrow> hs | None \<Rightarrow> newHandlers)"
  have hs: "hs = hset e evt"
    unfolding hs_def hset_def newHandlers_def by (simp split: option.split)
  from assms have "handlers e' = (handlers e)(evt \<mapsto> add hs h)"
    unfolding On_def Let_def hs_def [symmetric]
    by (auto split: option.splits)
  then show ?thesis unfolding hs by (simp add: hset_def add_def)
qed

lemma On_all_hset:
  "On_all n e evt hs = Some e' \<Longrightarrow>
   hset e' evt = hset e evt @ map (\<lambda>h. \<lparr>handler = h, once = False\<rparr>) hs"
proof (induction hs arbitrary: e)
  case Nil
  then show ?case by simp
next
  case (Cons h hs)
  from Cons.prems obtain e1 where 1: "On n e evt h = Some e1" and 2: "On_all n e1 evt hs = Some e'"
    by (auto split: option.splits)
  from Cons.IH [OF 2] On_hset [OF 1] show ?case by simp
qed

lemma call_reaches:
  assumes c: "call hs hp d = (hs', tr, r)"
    and i: "i < length hs" and n: "\<forall>j < i. Call (handler (hs ! j)) hp d = None"
  shows "i < length tr"
proof (rule ccontr)
  assume "\<not> i < length tr"
  then have le: "length tr \<le> i" by simp
  note s = call_shape [OF c]
  show False
  proof (cases r)
    case None
    with s have "length tr = length hs" by simp
    with le i show False by simp
  next
    case (Some er)
    with s have p: "0 < length tr" and f: "Call (handler (hs ! (length tr - 1))) hp d = Some er"
      by simp_all
    from p le have "length tr - 1 < i" by arith
    with n f show False by simp
  qed
qed

text \<open>
  Claim C8 (on the handler set modelled from the spec). When the persistent handlers
  \<open>hs\<close> are registered on \<open>evt\<close> with \<^verbatim>\<open>On\<close>, in that order, the handler set of
  \<open>evt\<close> is what it was before followed by their entries in that order; and a dispatch
  of \<^verbatim>\<open>Emit(evt, d)\<close> whose first phase returns no error invokes, in its second phase
  and right after the first, the entries of that set in the order of the sequence, each
  entry being reached when no entry before it returned an error.
\<close>

theorem dispatch_in_registration_order:
  assumes "On_all n e evt hs = Some e1"
    and "Emit m e1 evt d = Some (e0, t)"
    and "outcome e0 (''before:'' @ evt) (tdata t) = None"
  shows "hset e0 evt = hset e evt @ map (\<lambda>h. \<lparr>handler = h, once = False\<rparr>) hs \<and>
         (\<exists>rest. trace (Emit_go e0 t) =
            trace e0 @ invoked e0 (''before:'' @ evt) (tdata t) @ invoked e0 evt (tdata t) @ rest) \<and>
         invoked e0 evt (tdata t) =
           map (\<lambda>en. Called (hid (handler en)) (tdata t))
             (take (length (invoked e0 evt (tdata t))) (hset e0 evt)) \<and>
         (\<forall>i < length (hset e0 evt).
            (\<forall>j < i. Call (handler (hset e0 evt ! j)) (heap e0) (tdata t) = None) \<longrightarrow>
            i < length (invoked e0 evt (tdata t)))"
proof -
  note f = Emit_fields [OF assms(2)]
  have "hset e0 evt = hset e1 evt" unfolding hset_def f(1) ..
  with On_all_hset [OF assms(1)]
  have 1: "hset e0 evt = hset e evt @ map (\<lambda>h. \<lparr>handler = h, once = False\<rparr>) hs" by simp
  define B where "B = ''before:'' @ evt"
  have run: "trace (Emit_go e0 t) =
     trace e0 @ invoked e0 B (tdata t) @
     (if outcome e0 B (tdata t) = None
      then invoked e0 evt (tdata t) @
           (if outcome e0 evt (tdata t) = None
            then invoked e0 (''after:'' @ evt) (tdata t) @
                 report e0 t (outcome e0 (''after:'' @ evt) (tdata t))
            else report e0 t (outcome e0 evt (tdata t)))
      else report e0 t (outcome e0 B (tdata t))) @
     (if tdone t < length (chans e0) then [Sent (tdone t)] else [])"
    using Emit_go_run [of e0 t, THEN conjunct1] unfolding f(5) B_def .
  have nb: "outcome e0 B (tdata t) = None" using assms(3) unfolding B_def .
  have "\<exists>rest. trace (Emit_go e0 t) =
            trace e0 @ invoked e0 B (tdata t) @ invoked e0 evt (tdata t) @ rest"
    unfolding run nb by simp
  then have 2: "\<exists>rest. trace (Emit_go e0 t) =
            trace e0 @ invoked e0 (''before:'' @ evt) (tdata t) @ invoked e0 evt (tdata t) @ rest"
    unfolding B_def .
  have 3: "invoked e0 evt (tdata t) =
           map (\<lambda>en. Called (hid (handler en)) (tdata t))
             (take (length (invoked e0 evt (tdata t))) (hset e0 evt))"
    unfolding invoked_def by (rule call_trace_map)
  have 4: "\<forall>i < length (hset e0 evt).
            (\<forall>j < i. Call (handler (hset e0 evt ! j)) (heap e0) (tdata t) = None) \<longrightarrow>
            i < length (invoked e0 evt (tdata t))"
  proof (intro allI impI)
    fix i
    assume i: "i < length (hset e0 evt)"
      and n: "\<forall>j < i. Call (handler (hset e0 evt ! j)) (heap e0) (tdata t) = None"
    obtain hs' tr r where c: "call (hset e0 evt) (heap e0) (tdata t) = (hs', tr, r)"
      by (cases "call (hset e0 evt) (heap e0) (tdata t)")
    from call_reaches [OF c i n] show "i < length (invoked e0 evt (tdata t))"
      unfolding invoked_def c by simp
  qed
  from 1 2 3 4 show ?thesis by blast
qed

theorem dispatch_in_registration_order_witness:
  "On_all 0 (NewEmitter False) ''x'' [quiet 1, quiet 2, quiet 3] = Some ex_reg \<and>
   Emit 0 ex_reg ''x'' None =
     Some (ex_reg\<lparr>heap := [[]], chans := [0]\<rparr>, \<lparr>tevt = ''x'', tdata = Some 0, tdone = 0\<rparr>) \<and>
   outcome (ex_reg\<lparr>heap := [[]], chans := [0]\<rparr>) ''before:x'' (Some 0) = None \<and>
   invoked (ex_reg\<lparr>heap := [[]], chans := [0]\<rparr>) ''x'' (Some 0) =
     [Called 1 (Some 0), Called 2 (Some 0), Called 3 (Some 0)] \<and>
   trace (Emit_go (ex_reg\<lparr>heap := [[]], chans := [0]\<rparr>)
            \<lparr>tevt = ''x'', tdata = Some 0, tdone = 0\<rparr>) =
     [Called 1 (Some 0), Called 2 (Some 0), Called 3 (Some 0), Sent 0]"
proof -
  define e0 where "e0 = ex_reg\<lparr>heap := [[]], chans := [0]\<rparr>"
  define t where "t = \<lparr>tevt = ''x'', tdata = Some 0, tdone = 0\<rparr>"
  have a: "On_all 0 (NewEmitter False) ''x'' [quiet 1, quiet 2, quiet 3] = Some ex_reg"
    by (simp add: On_def ex_reg_def NewEmitter_def newHandlers_def add_def)
  have b: "Emit 0 ex_reg ''x'' None = Some (e0, t)"
    by (simp add: Emit_def ex_reg_def NewEmitter_def NewData_def HasPrefix_def e0_def t_def)
  have c: "outcome e0 (''before:'' @ ''x'') (tdata t) = None"
    by (simp add: outcome_def hset_def ex_reg_def NewEmitter_def e0_def t_def)
  note th = dispatch_in_registration_order [OF a b c]
  have hs: "hset e0 ''x'' = map (\<lambda>h. \<lparr>handler = h, once = False\<rparr>) [quiet 1, quiet 2, quiet 3]"
    using th by (simp add: hset_def NewEmitter_def)
  have r: "\<forall>j < 2. Call (handler (hset e0 ''x'' ! j)) (heap e0) (tdata t) = None"
    unfolding hs by (simp add: quiet_def less_Suc_eq numeral_2_eq_2)
  have "2 < length (hset e0 ''x'')" unfolding hs by simp
  with th r have l: "2 < length (invoked e0 ''x'' (tdata t))" by blast
  have "length (invoked e0 ''x'' (tdata t)) \<le> length (hset e0 ''x'')"
    by (subst conjunct1 [OF conjunct2 [OF conjunct2 [OF th]]]) simp
  with l have "length (invoked e0 ''x'' (tdata t)) = 3" unfolding hs by simp
  with th have i: "invoked e0 ''x'' (tdata t) =
      map (\<lambda>en. Called (hid (handler en)) (tdata t)) (take 3 (hset e0 ''x''))"
    by simp
  have i': "invoked e0 ''x'' (Some 0) = [Called 1 (Some 0), Called 2 (Some 0), Called 3 (Some 0)]"
    using i unfolding hs by (simp add: t_def quiet_def)
  have tr: "trace (Emit_go e0 t) = [Called 1 (Some 0), Called 2 (Some 0), Called 3 (Some 0), Sent 0]"
    using Emit_go_run [of e0 t, THEN conjunct1]
    by (simp add: invoked_def outcome_def hset_def ex_reg_def NewEmitter_def quiet_def report_def
        e0_def t_def)
  from a b c i' tr show ?thesis unfolding e0_def t_def by simp
qed

lemma On_cached:
  assumes "oneTimeEmissions e evt = Some data" and "copyData n (heap e) data = Some (hp, c)"
  shows "On n e evt h =
     Some (e\<lparr>handlers := (handlers e)(evt \<mapsto> hset e evt @ [\<lparr>handler = h, once = False\<rparr>]),
             heap := hp, trace := trace e @ [Called (hid h) (Some c)]\<rparr>)"
proof -
  have hs: "(case handlers e evt of Some hs \<Rightarrow> hs | None \<Rightarrow> newHandlers) = hset e evt"
    unfolding hset_def newHandlers_def by (simp split: option.split)
  show ?thesis
    unfolding On_def Let_def hs using assms by (simp add: add_def)
qed

lemma Once_cached:
  assumes "oneTimeEmissions e evt = Some data" and "copyData n (heap e) data = Some (hp, c)"
  shows "Once n e evt h = Some (e\<lparr>heap := hp, trace := trace e @ [Called (hid h) (Some c)]\<rparr>)"
  unfolding Once_def using assms by simp

lemma Once_not_cached:
  assumes "oneTimeEmissions e evt = None"
  shows "Once n e evt h =
     Some (e\<lparr>handlers := (handlers e)(evt \<mapsto> hset e evt @ [\<lparr>handler = h, once = True\<rparr>])\<rparr>)"
proof -
  have hs: "(case handlers e evt of Some hs \<Rightarrow> hs | None \<Rightarrow> newHandlers) = hset e evt"
    unfolding hset_def newHandlers_def by (simp split: option.split)
  show ?thesis
    unfolding Once_def Let_def hs using assms by (simp add: addOnce_def)
qed



text \<open>
  Claim C4. For every event name with a payload cached by an earlier \<^verbatim>\<open>EmitOnce\<close>,
  \<^verbatim>\<open>On(evt, h)\<close> registers \<open>h\<close> as a persistent entry at the end of the handler set and,
  before it returns, invokes \<open>h\<close> with a new copy of the cached payload: a new table at
  a new address with the entries of the cached one, the heap before it untouched.
  Whatever \<open>h\<close> returns, the result is this state and nothing more: the error goes
  nowhere. A payload cached by an \<^verbatim>\<open>EmitOnce\<close> that returned is flat
  (lemma \<open>EmitOnce_caches_flat\<close>), which is the case the theorem is about.
\<close>

theorem On_replays_cached:
  assumes "oneTimeEmissions e evt = Some (Some a)" and "a < length (heap e)"
    and "flat (heap e ! a)" and "distinct (map fst (heap e ! a))"
  shows "On (Suc n) e evt h =
     Some (e\<lparr>handlers := (handlers e)(evt \<mapsto> hset e evt @ [\<lparr>handler = h, once = False\<rparr>]),
             heap := heap e @ [heap e ! a],
             trace := trace e @ [Called (hid h) (Some (length (heap e)))]\<rparr>)"
  using assms(1) copyData_flat [OF assms(2-4)] by (rule On_cached)

lemma ex_cached_eq:
  "ex_cached =
     \<lparr>handlers = Map.empty, log = False,
      oneTimeEmissions = [''before:x'' \<mapsto> Some 2, ''x'' \<mapsto> Some 2, ''after:x'' \<mapsto> Some 2],
      heap = [[(''v'', VInt 1)], [(''v'', VInt 2)], [(''v'', VInt 1)], [(''v'', VInt 1)]],
      chans = [1], trace = [Sent 0]\<rparr>"
proof -
  have c1: "copyData (Suc 0) ex_heap (Some 0) = Some (ex_heap @ [[(''v'', VInt 1)]], 2)"
    by (simp add: ex_heap_def store_def)
  have c2: "copyData (Suc 0) (ex_heap @ [[(''v'', VInt 1)]]) (Some 2)
            = Some (ex_heap @ [[(''v'', VInt 1)], [(''v'', VInt 1)]], 3)"
    by (simp add: ex_heap_def store_def)
  have "EmitOnce 1 ex_start ''x'' (Some 0) =
     Some (\<lparr>handlers = Map.empty, log = False,
      oneTimeEmissions = [''before:x'' \<mapsto> Some 2, ''x'' \<mapsto> Some 2, ''after:x'' \<mapsto> Some 2],
      heap = ex_heap @ [[(''v'', VInt 1)], [(''v'', VInt 1)]],
      chans = [0], trace = []\<rparr>, \<lparr>tevt = ''x'', tdata = Some 3, tdone = 0\<rparr>)"
    unfolding EmitOnce_def Emit_def
    by (simp add: ex_start_def NewEmitter_def c1 c2 HasPrefix_def del: copyData.simps)
  then show ?thesis
    unfolding ex_cached_def
    by (simp add: Emit_go_def emit_def send_def ex_heap_def)
qed

theorem On_replays_cached_witness:
  "oneTimeEmissions ex_cached ''x'' = Some (Some 2) \<and> 2 < length (heap ex_cached) \<and>
   flat (heap ex_cached ! 2) \<and> distinct (map fst (heap ex_cached ! 2)) \<and>
   On 1 ex_cached ''x'' (failing 7 ''boom'') =
     Some (ex_cached
       \<lparr>handlers := [''x'' \<mapsto> [\<lparr>handler = failing 7 ''boom'', once = False\<rparr>]],
        heap := [[(''v'', VInt 1)], [(''v'', VInt 2)], [(''v'', VInt 1)], [(''v'', VInt 1)],
                 [(''v'', VInt 1)]],
        trace := [Sent 0, Called 7 (Some 4)]\<rparr>)"
proof -
  have a: "oneTimeEmissions ex_cached ''x'' = Some (Some 2)"
    and b: "2 < length (heap ex_cached)"
    and c: "flat (heap ex_cached ! 2)"
    and d: "distinct (map fst (heap ex_cached ! 2))"
    by (simp_all add: ex_cached_eq flat_def)
  from On_replays_cached [OF a b c d, of 0 "failing 7 ''boom''"] a b c d
  show ?thesis by (simp add: ex_cached_eq hset_def failing_def)
qed

text \<open>
  Claim C5. For every event name: if a one-time emission is cached for it,
  \<^verbatim>\<open>Once(evt, h)\<close> invokes \<open>h\<close> at once with a copy of the cached payload and leaves
  every handler set as it was, so that no later emission can invoke \<open>h\<close>; if none is
  cached, \<^verbatim>\<open>Once(evt, h)\<close> appends \<open>h\<close> as a once-flagged entry to the handler set of
  the name (a new set if there was none) and invokes nothing.
\<close>

theorem Once_cached_or_registered:
  "(oneTimeEmissions e evt = Some (Some a) \<and> a < length (heap e) \<and>
    flat (heap e ! a) \<and> distinct (map fst (heap e ! a)) \<longrightarrow>
      Once (Suc n) e evt h =
        Some (e\<lparr>heap := heap e @ [heap e ! a],
                trace := trace e @ [Called (hid h) (Some (length (heap e)))]\<rparr>)) \<and>
   (oneTimeEmissions e evt = None \<longrightarrow>
      Once n e evt h =
        Some (e\<lparr>handlers :=
                  (handlers e)(evt \<mapsto> hset e evt @ [\<lparr>handler = h, once = True\<rparr>])\<rparr>))"
proof (intro conjI impI)
  assume "oneTimeEmissions e evt = Some (Some a) \<and> a < length (heap e) \<and>
    flat (heap e ! a) \<and> distinct (map fst (heap e ! a))"
  then have 1: "oneTimeEmissions e evt = Some (Some a)"
    and 2: "copyData (Suc n) (heap e) (Some a) = Some (heap e @ [heap e ! a], length (heap e))"
    using copyData_flat [of a "heap e" n] by simp_all
  from 1 2 show "Once (Suc n) e evt h =
        Some (e\<lparr>heap := heap e @ [heap e ! a],
                trace := trace e @ [Called (hid h) (Some (length (heap e)))]\<rparr>)"
    by (rule Once_cached)
next
  assume "oneTimeEmissions e evt = None"
  then show "Once n e evt h =
        Some (e\<lparr>handlers :=
                  (handlers e)(evt \<mapsto> hset e evt @ [\<lparr>handler = h, once = True\<rparr>])\<rparr>)"
    by (rule Once_not_cached)
qed

theorem Once_cached_or_registered_witness:
  "oneTimeEmissions ex_cached ''x'' = Some (Some 2) \<and> 2 < length (heap ex_cached) \<and>
   flat (heap ex_cached ! 2) \<and> distinct (map fst (heap ex_cached ! 2)) \<and>
   Once 1 ex_cached ''x'' (quiet 7) =
     Some (ex_cached
       \<lparr>heap := [[(''v'', VInt 1)], [(''v'', VInt 2)], [(''v'', VInt 1)], [(''v'', VInt 1)],
                 [(''v'', VInt 1)]],
        trace := [Sent 0, Called 7 (Some 4)]\<rparr>) \<and>
   oneTimeEmissions ex_cached ''y'' = None \<and>
   Once 1 ex_cached ''y'' (quiet 7) =
     Some (ex_cached\<lparr>handlers := [''y'' \<mapsto> [\<lparr>handler = quiet 7, once = True\<rparr>]]\<rparr>)"
proof -
  have a: "oneTimeEmissions ex_cached ''x'' = Some (Some 2) \<and> 2 < length (heap ex_cached) \<and>
    flat (heap ex_cached ! 2) \<and> distinct (map fst (heap ex_cached ! 2))"
    by (simp add: ex_cached_eq flat_def)
  have b: "oneTimeEmissions ex_cached ''y'' = None"
    by (simp add: ex_cached_eq)
  from Once_cached_or_registered [of ex_cached "''x''" 2 0 "quiet 7", THEN conjunct1, rule_format, OF a]
    Once_cached_or_registered [of ex_cached "''y''" 2 1 "quiet 7", THEN conjunct2, rule_format, OF b]
    a b
  show ?thesis by (simp add: ex_cached_eq hset_def quiet_def)
qed







lemma plain_extend:
  "plain k h m \<Longrightarrow> length h \<le> length h' \<Longrightarrow> take (length h) h' = h \<Longrightarrow> plain k h' m"
proof (induction k arbitrary: m)
  case 0
  then show ?case by simp
next
  case (Suc k)
  have "(case v of VData t \<Rightarrow> False | VMap None \<Rightarrow> True
           | VMap (Some a) \<Rightarrow> a < length h' \<and> plain k h' (h' ! a) | _ \<Rightarrow> True)"
    if "(key, v) \<in> set m" for key v
  proof -
    from Suc.prems(1) that
    have p: "(case v of VData t \<Rightarrow> False | VMap None \<Rightarrow> True
           | VMap (Some a) \<Rightarrow> a < length h \<and> plain k h (h ! a) | _ \<Rightarrow> True)"
      by (auto simp: list_all_iff)
    show ?thesis
    proof (cases v)
      case (VMap t)
      show ?thesis
      proof (cases t)
        case None
        with VMap show ?thesis by simp
      next
        case (Some a)
        with p VMap have a: "a < length h" "plain k h (h ! a)" by simp_all
        have "h' ! a = h ! a" using Suc.prems(3) a(1) by (rule frame_nth)
        moreover have "plain k h' (h ! a)" using a(2) Suc.prems(2,3) by (rule Suc.IH)
        ultimately show ?thesis using VMap Some a(1) Suc.prems(2) by simp
      qed
    qed (use p in simp_all)
  qed
  then show ?case by (auto simp: list_all_iff)
qed

lemma copyLoop_returns:
  assumes fr: "frame rec"
    and ok: "\<And>key v h'. (key, v) \<in> set es \<Longrightarrow> length h0 \<le> length h' \<Longrightarrow>
               take (length h0) h' = h0 \<Longrightarrow> \<exists>r. copyVal rec d h' v = Some r"
  shows "length h0 \<le> length h \<Longrightarrow> take (length h0) h = h0 \<Longrightarrow> length h0 \<le> nd \<Longrightarrow>
         \<exists>r. copyLoop rec d nd es h = Some r"
  using ok
proof (induction es arbitrary: h)
  case Nil
  then show ?case by simp
next
  case (Cons e es)
  obtain key v where e: "e = (key, v)" by (cases e)
  from Cons.prems(4) [of key v h] Cons.prems(1,2) e
  obtain h1 v1 where r: "copyVal rec d h v = Some (h1, v1)" by auto
  from copyVal_frame [OF fr r] have f: "length h \<le> length h1" "take (length h) h1 = h"
    by simp_all
  have l: "length h0 \<le> length (store h1 nd key v1)" using f(1) Cons.prems(1) by simp
  have "take (length h0) (store h1 nd key v1) = take (length h0) h1"
    using Cons.prems(3) by (rule take_store)
  also have "\<dots> = take (length h0) h" using f(2) Cons.prems(1) by (rule take_le_eq)
  also have "\<dots> = h0" by (rule Cons.prems(2))
  finally have t: "take (length h0) (store h1 nd key v1) = h0" .
  have "\<exists>r. copyLoop rec d nd es (store h1 nd key v1) = Some r"
  proof (rule Cons.IH [OF l t Cons.prems(3)])
    fix key' v' h'
    assume "(key', v') \<in> set es" "length h0 \<le> length h'" "take (length h0) h' = h0"
    then show "\<exists>r. copyVal rec d h' v' = Some r"
      using Cons.prems(4) [of key' v' h'] by simp
  qed
  then show ?case unfolding e copyLoop_Cons r by simp
qed

lemma copyData_plain_returns:
  "plain k h (entries h d) \<Longrightarrow> k < n \<Longrightarrow> \<exists>r. copyData n h d = Some r"
proof (induction k arbitrary: n h d)
  case 0
  then obtain n' where n: "n = Suc n'" by (cases n) simp_all
  have "\<exists>r. copyLoop (copyData n') d (length h) (entries h d) (h @ [[]]) = Some r"
  proof (rule copyLoop_returns [OF copyData_frame, where ?h0.0 = h])
    fix key v h'
    assume "(key, v) \<in> set (entries h d)"
    with "0.prems"(1) have "\<not> is_map v" by (auto simp: flat_def list_all_iff)
    then show "\<exists>r. copyVal (copyData n') d h' v = Some r" by (simp add: copyVal_flat)
  qed simp_all
  then show ?case unfolding n by simp
next
  case (Suc k)
  then obtain n' where n: "n = Suc n'" and kn: "k < n'" by (cases n) simp_all
  then obtain n'' where n': "n' = Suc n''" by (cases n') simp_all
  have "\<exists>r. copyLoop (copyData n') d (length h) (entries h d) (h @ [[]]) = Some r"
  proof (rule copyLoop_returns [OF copyData_frame, where ?h0.0 = h])
    fix key v h'
    assume mem: "(key, v) \<in> set (entries h d)"
      and ext: "length h \<le> length h'" "take (length h) h' = h"
    from Suc.prems(1) mem
    have p: "(case v of VData t \<Rightarrow> False | VMap None \<Rightarrow> True
           | VMap (Some a) \<Rightarrow> a < length h \<and> plain k h (h ! a) | _ \<Rightarrow> True)"
      by (auto simp: list_all_iff)
    show "\<exists>r. copyVal (copyData n') d h' v = Some r"
    proof (cases v)
      case (VData t)
      with p show ?thesis by simp
    next
      case (VMap t)
      show ?thesis
      proof (cases t)
        case None
        then show ?thesis unfolding VMap n' by (simp add: copyVal_def)
      next
        case (Some a)
        with p VMap have a: "a < length h" "plain k h (h ! a)" by simp_all
        have "h' ! a = h ! a" using ext(2) a(1) by (rule frame_nth)
        moreover have "plain k h' (h ! a)" using a(2) ext by (rule plain_extend)
        ultimately have "plain k h' (entries h' (Some a))" using a(1) ext(1) by simp
        from Suc.IH [OF this kn] obtain r where "copyData n' h' (Some a) = Some r" by blast
        then show ?thesis unfolding VMap Some by (cases r) (simp add: copyVal_def)
      qed
    qed (simp_all add: copyVal_def)
  qed simp_all
  then show ?case unfolding n by simp
qed

text \<open>
  Claim C2 fails on the code. For the payload \<^verbatim>\<open>Data{"pos": Data{"x": 1}}\<close> the branch
  \<^verbatim>\<open>case Data\<close> of \<^verbatim>\<open>copyData\<close> calls \<^verbatim>\<open>copyData(d)\<close>, the map being copied, instead of
  the nested value: the same call again, without end. Whatever the fuel, the model
  returns nothing, so no copy of the nested map is ever made.
\<close>

theorem copyData_nested_Data_no_copy:
  "copyData n ex_nested (Some 0) = None"
proof -
  have "(''pos'', VData (Some 1)) \<in> set (ex_nested ! 0)" by (simp add: ex_nested_def)
  moreover have "0 < length ex_nested" by (simp add: ex_nested_def)
  ultimately show ?thesis by (rule copyData_diverges)
qed

text \<open>
  Claim C10 fails on the code. \<^verbatim>\<open>copyData\<close> does not return on any map that holds a
  value of type \<^verbatim>\<open>Data\<close>, however small and free of cycles the payload is: for every
  amount of fuel the model returns nothing. The same holds one level down, for a plain
  map that holds a value of type \<^verbatim>\<open>Data\<close>. On a finite tree of plain maps
  \<^verbatim>\<open>copyData\<close> does return (lemma \<open>copyData_plain_returns\<close>): what fails is the
  branch for \<^verbatim>\<open>Data\<close>.
\<close>

theorem copyData_never_returns:
  assumes "a < length h" and "(k, VData t) \<in> set (h ! a)"
  shows "copyData n h (Some a) = None \<and>
         (\<forall>b k'. b < length h \<longrightarrow> (k', VMap (Some a)) \<in> set (h ! b) \<longrightarrow>
            copyData n h (Some b) = None)"
proof (intro conjI allI impI)
  show "copyData n h (Some a) = None" using assms(2,1) by (rule copyData_diverges)
next
  fix b k'
  assume b: "b < length h" and m: "(k', VMap (Some a)) \<in> set (h ! b)"
  show "copyData n h (Some b) = None"
  proof (cases n)
    case 0
    then show ?thesis by simp
  next
    case (Suc m')
    have "copyLoop (copyData m') (Some b) (length h) es h' = None"
      if "(k', VMap (Some a)) \<in> set es" "length h < length h'" "take (length h) h' = h"
      for es h'
      using that
    proof (induction es arbitrary: h')
      case Nil
      then show ?case by simp
    next
      case (Cons e es)
      obtain k1 v1 where e: "e = (k1, v1)" by (cases e)
      have ah': "a < length h'" "h' ! a = h ! a"
        using Cons.prems(2) assms(1) frame_nth [OF Cons.prems(3) assms(1)] by simp_all
      have div: "copyData m' h' (Some a) = None"
        using assms(2) ah' by (intro copyData_diverges [of k t]) simp_all
      show ?case
      proof (cases "copyVal (copyData m') (Some b) h' v1")
        case None
        then show ?thesis unfolding e copyLoop_Cons by simp
      next
        case (Some r)
        obtain h1 w where r: "r = (h1, w)" by (cases r)
        have "(k1, v1) \<noteq> (k', VMap (Some a))"
        proof
          assume "(k1, v1) = (k', VMap (Some a))"
          then have "copyVal (copyData m') (Some b) h' v1 = None"
            using div by (simp add: copyVal_def)
          with Some show False by simp
        qed
        with Cons.prems(1) e have mem: "(k', VMap (Some a)) \<in> set es" by auto
        from copyVal_frame [OF copyData_frame Some [unfolded r]]
        have f: "length h' \<le> length h1" "take (length h') h1 = h'" by simp_all
        have l1: "length h < length (store h1 (length h) k1 w)"
          using f(1) Cons.prems(2) by simp
        have "take (length h) (store h1 (length h) k1 w) = take (length h) h1"
          by (rule take_store) simp
        also have "\<dots> = take (length h) h'"
          using f(2) by (rule take_le_eq) (use Cons.prems(2) in simp)
        also have "\<dots> = h" by (rule Cons.prems(3))
        finally have t1: "take (length h) (store h1 (length h) k1 w) = h" .
        from Cons.IH [OF mem l1 t1] Some r show ?thesis
          unfolding e copyLoop_Cons by simp
      qed
    qed
    from this [of "h ! b" "h @ [[]]"] m b show ?thesis
      unfolding Suc by simp
  qed
qed

theorem copyData_never_returns_witness:
  "0 < length ex_nested \<and> (''pos'', VData (Some 1)) \<in> set (ex_nested ! 0) \<and>
   copyData 1000 ex_nested (Some 0) = None \<and>
   1 < length ex_deep \<and> (''inner'', VData (Some 2)) \<in> set (ex_deep ! 1) \<and>
   (''cfg'', VMap (Some 1)) \<in> set (ex_deep ! 0) \<and>
   copyData 1000 ex_deep (Some 0) = None"
proof -
  have a: "0 < length ex_nested" and b: "(''pos'', VData (Some 1)) \<in> set (ex_nested ! 0)"
    by (simp_all add: ex_nested_def)
  have c: "1 < length ex_deep" and d: "(''inner'', VData (Some 2)) \<in> set (ex_deep ! 1)"
    and e: "0 < length ex_deep" and f: "(''cfg'', VMap (Some 1)) \<in> set (ex_deep ! 0)"
    by (simp_all add: ex_deep_def)
  from copyData_never_returns [OF a b, of 1000, THEN conjunct1]
    copyData_never_returns [OF c d, of 1000, THEN conjunct2, rule_format, OF e f]
    a b c d f
  show ?thesis by blast
qed

end
